theory Spec2Isabelle
  imports Main "HOL-Library.Sublist" "HOL-Library.List_Lexorder" "HOL-Library.AList"
    "HOL-Library.Code_Target_Nat"
begin

section \<open>Strings\<close>

text \<open>
  A Python \<open>str\<close> is a sequence of Unicode code points and \<open>len\<close> counts code points,
  so a string is modelled as a list of code points. \<open>cps\<close> turns an ASCII literal into
  its code points.
\<close>

type_synonym pystr = "nat list"

definition cps :: "string \<Rightarrow> pystr" where
  "cps s = map of_char s"

text \<open>
  \<open>str.isspace\<close> per code point, as CPython's \<open>Py_UNICODE_ISSPACE\<close> has it; the regular
  expression class \<open>\s\<close> on a \<open>str\<close> pattern and \<open>str.strip()\<close> both use it.
\<close>

definition isspace :: "nat \<Rightarrow> bool" where
  "isspace c \<longleftrightarrow>
     (9 \<le> c \<and> c \<le> 13) \<or> (28 \<le> c \<and> c \<le> 32) \<or> c = 133 \<or> c = 160 \<or> c = 5760 \<or>
     (8192 \<le> c \<and> c \<le> 8202) \<or> c = 8232 \<or> c = 8233 \<or> c = 8239 \<or> c = 8287 \<or> c = 12288"

text \<open>\<open>str.strip()\<close>: leading and trailing whitespace removed.\<close>

definition lstrip :: "pystr \<Rightarrow> pystr" where
  "lstrip s = dropWhile isspace s"

fun rstrip :: "pystr \<Rightarrow> pystr" where
  "rstrip [] = []"
| "rstrip (c # s) =
     (case rstrip s of
        [] \<Rightarrow> if isspace c then [] else [c]
      | d # r \<Rightarrow> c # d # r)"

definition strip :: "pystr \<Rightarrow> pystr" where
  "strip s = rstrip (lstrip s)"

text \<open>\<open>str.rfind\<close> of one character: the index of its last occurrence, or \<open>-1\<close>.\<close>

definition shift_index :: "bool \<Rightarrow> int \<Rightarrow> int" where
  "shift_index here r = (if 0 \<le> r then r + 1 else if here then 0 else - 1)"

fun rfind :: "nat \<Rightarrow> pystr \<Rightarrow> int" where
  "rfind c [] = - 1"
| "rfind c (x # xs) = shift_index (x = c) (rfind c xs)"

text \<open>
  \<open>os.path.splitext\<close> (\<open>genericpath._splitext\<close> with separator \<open>/\<close> and extension
  separator \<open>.\<close>): the split is at the last dot, when it comes after the last separator
  and some character between the separator and that dot is not a dot. On names without
  \<open>/\<close>, \<open>\\<close> and \<open>:\<close> the POSIX and the Windows flavour agree.
\<close>

definition splitext :: "pystr \<Rightarrow> pystr \<times> pystr" where
  "splitext p =
     (let sepIndex = rfind 47 p;
          dotIndex = rfind 46 p
      in if sepIndex < dotIndex \<and>
            list_ex (\<lambda>c. c \<noteq> 46)
              (take (nat dotIndex - nat (sepIndex + 1)) (drop (nat (sepIndex + 1)) p))
         then (take (nat dotIndex) p, drop (nat dotIndex) p)
         else (p, []))"

text \<open>
  \<open>os.path.basename\<close> (POSIX): what follows the last \<open>/\<close>. The names it is given here
  come out of the sanitizer or carry the format of the archive, and on names without
  \<open>/\<close>, \<open>\\<close> and \<open>:\<close> the Windows flavour returns the name as well.
\<close>

definition basename :: "pystr \<Rightarrow> pystr" where
  "basename p = drop (nat (rfind 47 p + 1)) p"

text \<open>
  \<open>os.path.join\<close> of two components (POSIX). The joined path is only handed to the
  file-system checks and routines, which are parameters of the model.
\<close>

definition path_join :: "pystr \<Rightarrow> pystr \<Rightarrow> pystr" where
  "path_join a b =
     (if b \<noteq> [] \<and> hd b = 47 then b
      else if a = [] \<or> last a = 47 then a @ b
      else a @ [47] @ b)"

section \<open>The name sanitizer\<close>

definition MAX_FILENAME_LENGTH :: nat where
  "MAX_FILENAME_LENGTH = 255"

text \<open>The fallback label, three code points (U+672A, U+547D, U+540D).\<close>

definition unnamed :: pystr where
  "unnamed = [26410, 21629, 21517]"

text \<open>The character class \<open>[<>:"/\|?*]\<close>.\<close>

definition is_reserved :: "nat \<Rightarrow> bool" where
  "is_reserved c \<longleftrightarrow> c \<in> {60, 62, 58, 34, 47, 92, 124, 63, 42}"

text \<open>The character class \<open>[\x00-\x1F\x7F]\<close>.\<close>

definition is_control :: "nat \<Rightarrow> bool" where
  "is_control c \<longleftrightarrow> c \<le> 31 \<or> c = 127"

text \<open>\<open>re.sub(r'\.{2,}', '.', s)\<close>: every maximal run of two or more dots becomes one dot.\<close>

fun collapse_dots :: "pystr \<Rightarrow> pystr" where
  "collapse_dots (c # d # s) =
     (if c = 46 \<and> d = 46 then collapse_dots (d # s) else c # collapse_dots (d # s))"
| "collapse_dots s = s"

text \<open>\<open>re.sub(r'\s+', ' ', s)\<close>: every maximal run of whitespace becomes one space.\<close>

function collapse_ws :: "pystr \<Rightarrow> pystr" where
  "collapse_ws [] = []"
| "collapse_ws (c # s) =
     (if isspace c then 32 # collapse_ws (dropWhile isspace s) else c # collapse_ws s)"
  by pat_completeness auto
termination
  by (relation "measure length") (auto simp: length_dropWhile_le less_Suc_eq_le)

text \<open>The four substitutions and the trim, in the source's order.\<close>

definition clean :: "pystr \<Rightarrow> pystr" where
  "clean s =
     strip (collapse_ws (collapse_dots
       (filter (\<lambda>c. \<not> is_control c) (filter (\<lambda>c. \<not> is_reserved c) s))))"

definition sanitize_filename :: "pystr \<Rightarrow> pystr" where
  "sanitize_filename filename =
     (if filename = [] then unnamed
      else
        let sanitized = clean filename;
            (name, ext) = splitext sanitized;
            sanitized =
              (if MAX_FILENAME_LENGTH < length sanitized then
                 (let max_name_length = int MAX_FILENAME_LENGTH - int (length ext)
                  in if 0 < max_name_length
                     then take (nat max_name_length) name @ ext
                     else take MAX_FILENAME_LENGTH sanitized)
               else sanitized)
        in if sanitized = [] then unnamed else sanitized)"

section \<open>Case folding\<close>

text \<open>
  \<open>str.lower()\<close> is the Unicode lower-case mapping of the Python runtime. The functions
  below take it as the parameter \<open>lower\<close>; on strings of ASCII characters it is
  \<open>ascii_lower\<close>.
\<close>

definition ascii_lower :: "pystr \<Rightarrow> pystr" where
  "ascii_lower s = map (\<lambda>c. if 65 \<le> c \<and> c \<le> 90 then c + 32 else c) s"

text \<open>\<open>str(n)\<close> for a natural number: its decimal digits.\<close>

fun str_nat :: "nat \<Rightarrow> pystr" where
  "str_nat n = (if n < 10 then [48 + n] else str_nat (n div 10) @ [48 + n mod 10])"

section \<open>Loading and validating the mapping\<close>

text \<open>
  A cell of the table read by pandas is a value or missing (\<open>NaN\<close>); a row is the pair of
  the cells in the key column and in the target-name column.
\<close>

type_synonym cell = "pystr option"

datatype load_error =
    DuplicateKey "pystr list"
  | DuplicateTarget "(pystr \<times> pystr) list"

text \<open>\<open>df.dropna(subset=[name_col, filename_col])\<close>: rows with a missing cell are dropped.\<close>

fun dropna :: "(cell \<times> cell) list \<Rightarrow> (pystr \<times> pystr) list" where
  "dropna [] = []"
| "dropna ((Some k, Some t) # rows) = (k, t) # dropna rows"
| "dropna (_ # rows) = dropna rows"

text \<open>\<open>.astype(str).str.strip()\<close> on both columns.\<close>

definition strip_columns :: "(pystr \<times> pystr) list \<Rightarrow> (pystr \<times> pystr) list" where
  "strip_columns df = map (\<lambda>(k, t). (strip k, strip t)) df"

text \<open>\<open>Series.duplicated(keep=False)\<close>: the value occurs more than once in the column.\<close>

definition duplicated :: "'a list \<Rightarrow> 'a \<Rightarrow> bool" where
  "duplicated col v \<longleftrightarrow> 1 < count_list col v"

text \<open>\<open>Series.unique()\<close>: the distinct values in order of first appearance.\<close>

definition unique :: "'a list \<Rightarrow> 'a list" where
  "unique xs = rev (remdups (rev xs))"

text \<open>A dict built by a comprehension: a repeated key keeps its place and takes the later value.\<close>

definition dict_of :: "('k \<times> 'v) list \<Rightarrow> ('k \<times> 'v) list" where
  "dict_of rows = foldl (\<lambda>d (k, v). AList.update k v d) [] rows"

text \<open>
  Lines 439 to 462 of \<open>load_files\<close>: the cleaned table, the two duplicate checks, and the
  mapping. Strings compare by code point, as Python's \<open>sorted\<close> does; the order that
  \<open>sort_values\<close> gives rows of equal target name is the sorting routine's.
\<close>

definition cleaned_rows :: "(cell \<times> cell) list \<Rightarrow> (pystr \<times> pystr) list" where
  "cleaned_rows rows = strip_columns (dropna rows)"

definition build_mapping ::
  "(pystr \<Rightarrow> pystr) \<Rightarrow> (cell \<times> cell) list \<Rightarrow> load_error + (pystr \<times> pystr) list" where
  "build_mapping lower rows =
     (let df = cleaned_rows rows;
          name_duplicates = filter (\<lambda>(k, t). duplicated (map (lower \<circ> fst) df) (lower k)) df
      in if name_duplicates \<noteq> [] then
           Inl (DuplicateKey (sort (unique (map fst name_duplicates))))
         else
           let filename_duplicates = filter (\<lambda>(k, t). duplicated (map snd df) t) df
           in if filename_duplicates \<noteq> [] then
                Inl (DuplicateTarget (map (\<lambda>(k, t). (t, k)) (sort_key snd filename_duplicates)))
              else Inr (dict_of df))"

section \<open>Matching\<close>

datatype match_type = Contains | Exact

text \<open>\<open>sorted(keys, key=len, reverse=True)\<close>: longest first, equal lengths in their order.\<close>

definition sorted_names :: "pystr list \<Rightarrow> pystr list" where
  "sorted_names keys = sort_key (\<lambda>k. - int (length k)) keys"

definition match_found :: "(pystr \<Rightarrow> pystr) \<Rightarrow> match_type \<Rightarrow> pystr \<Rightarrow> pystr \<Rightarrow> bool" where
  "match_found lower mt name item_name =
     (let item_base_name = fst (splitext item_name)
      in (mt = Contains \<and> sublist (lower name) (lower item_name)) \<or>
         (mt \<noteq> Contains \<and> lower item_base_name = lower name))"

text \<open>\<open>matched_files[name].append(item_name)\<close> on a \<open>defaultdict(list)\<close>.\<close>

definition dd_append :: "'k \<Rightarrow> 'v \<Rightarrow> ('k \<times> 'v list) list \<Rightarrow> ('k \<times> 'v list) list" where
  "dd_append k v d =
     (case map_of d k of
        None \<Rightarrow> d @ [(k, [v])]
      | Some vs \<Rightarrow> AList.update k (vs @ [v]) d)"

record match_state =
  matched_files :: "(pystr \<times> pystr list) list"
  processed_items :: "pystr set"
  unmatched_items :: "pystr list"

definition match_item ::
  "(pystr \<Rightarrow> pystr) \<Rightarrow> match_type \<Rightarrow> pystr list \<Rightarrow> match_state \<Rightarrow> pystr \<Rightarrow> match_state" where
  "match_item lower mt names st item_name =
     (if item_name \<in> processed_items st then st
      else case find (\<lambda>name. match_found lower mt name item_name) names of
             Some name \<Rightarrow>
               st\<lparr>matched_files := dd_append name item_name (matched_files st),
                  processed_items := insert item_name (processed_items st)\<rparr>
           | None \<Rightarrow> st\<lparr>unmatched_items := unmatched_items st @ [item_name]\<rparr>)"

text \<open>Lines 474 to 489 of \<open>load_files\<close>, on the keys of the mapping and the listing.\<close>

definition match_files ::
  "(pystr \<Rightarrow> pystr) \<Rightarrow> match_type \<Rightarrow> pystr list \<Rightarrow> pystr list \<Rightarrow> match_state" where
  "match_files lower mt keys source_items =
     foldl (match_item lower mt (sorted_names keys))
       \<lparr>matched_files = [], processed_items = {}, unmatched_items = []\<rparr> source_items"

section \<open>The result table\<close>

text \<open>
  The status column of the result table holds one of six fixed labels, or the error
  prefix followed by a message; \<open>Error\<close> carries the message.
\<close>

datatype status =
    Pending | Success | Skipped | Unmatched | PreviewConflict | TargetExists | Error pystr

text \<open>A row of the table: the five values of \<open>tree.insert\<close>.\<close>

record row =
  item_index :: nat
  matched_name :: pystr
  original_item :: pystr
  target_name :: pystr
  status :: status

text \<open>
  \<open>load_files\<close> from line 439 on, given the rows of the table and the listing of the source
  folder (already restricted to files or to folders): a validation failure ends it, else
  the mapping, the match result and the table of the unmatched items are its result.
\<close>

definition unmatched_rows :: "pystr list \<Rightarrow> row list" where
  "unmatched_rows unmatched =
     map (\<lambda>(i, item_name).
            \<lparr>item_index = i + 1, matched_name = cps ''N/A'', original_item = item_name,
             target_name = [], status = Unmatched\<rparr>)
       (enumerate 0 unmatched)"

definition load_files ::
  "(pystr \<Rightarrow> pystr) \<Rightarrow> match_type \<Rightarrow> (cell \<times> cell) list \<Rightarrow> pystr list \<Rightarrow>
   load_error + ((pystr \<times> pystr) list \<times> match_state \<times> row list)" where
  "load_files lower mt rows source_items =
     (case build_mapping lower rows of
        Inl e \<Rightarrow> Inl e
      | Inr file_mapping \<Rightarrow>
          let st = match_files lower mt (map fst file_mapping) source_items
          in Inr (file_mapping, st, unmatched_rows (unmatched_items st)))"

section \<open>Preview\<close>

datatype rename_mode = FileMode | FolderMode

datatype duplicate_handling = Suffix | Skip

record config =
  rename_mode :: rename_mode
  duplicate_handling :: duplicate_handling
  compress_folder :: bool
  compress_format :: pystr
  source_folder_path :: pystr
  target_folder_path :: pystr

definition is_compressing :: "config \<Rightarrow> bool" where
  "is_compressing cfg \<longleftrightarrow> compress_folder cfg \<and> rename_mode cfg = FolderMode"

text \<open>The base target name of a key (lines 521 to 530).\<close>

definition base_target_name :: "config \<Rightarrow> (pystr \<times> pystr) list \<Rightarrow> pystr \<Rightarrow> pystr" where
  "base_target_name cfg file_mapping name =
     (let base_target_name_from_csv =
            sanitize_filename (case map_of file_mapping name of Some t \<Rightarrow> t | None \<Rightarrow> unnamed);
          base_name_for_ops = fst (splitext base_target_name_from_csv)
      in if rename_mode cfg = FileMode then base_target_name_from_csv
         else if is_compressing cfg then base_name_for_ops @ [46] @ compress_format cfg
         else base_target_name_from_csv)"

text \<open>
  The state of the preview loop: the names reserved in this run, the running index and
  the rows inserted so far.
\<close>

record preview_state =
  target_filenames_in_preview :: "pystr set"
  next_index :: nat
  tree :: "row list"

text \<open>The final target name of the \<open>i\<close>-th item of a group of \<open>n\<close> (lines 540 to 546).\<close>

definition final_target_name :: "config \<Rightarrow> pystr \<Rightarrow> nat \<Rightarrow> nat \<Rightarrow> pystr" where
  "final_target_name cfg base n i =
     (let final = (if 1 < n \<and> duplicate_handling cfg = Suffix
                   then (let (target_main, target_ext) = splitext base
                         in target_main @ [95] @ str_nat (i + 1) @ target_ext)
                   else base)
      in sanitize_filename (basename final))"

text \<open>
  One pass of the inner loop (lines 539 to 558). \<open>exists\<close> is \<open>os.path.exists\<close> on the
  file system as it is during the preview.
\<close>

definition preview_item ::
  "(pystr \<Rightarrow> pystr) \<Rightarrow> (pystr \<Rightarrow> bool) \<Rightarrow> config \<Rightarrow> pystr \<Rightarrow> pystr \<Rightarrow> nat \<Rightarrow>
   preview_state \<Rightarrow> nat \<times> pystr \<Rightarrow> preview_state" where
  "preview_item lower exists cfg name base n st = (\<lambda>(i, item).
     (let final = final_target_name cfg base n i;
          st_status =
            (if lower final \<in> lower ` target_filenames_in_preview st then PreviewConflict
             else if exists (path_join (target_folder_path cfg) final) then TargetExists
             else Pending)
      in \<lparr>target_filenames_in_preview =
            (if st_status = Pending then insert final (target_filenames_in_preview st)
             else target_filenames_in_preview st),
          next_index = next_index st + 1,
          tree = tree st @
            [\<lparr>item_index = next_index st, matched_name = name, original_item = item,
              target_name = final, status = st_status\<rparr>]\<rparr>))"

text \<open>The rows of a group that is skipped as a whole (lines 532 to 537).\<close>

definition skip_item :: "pystr \<Rightarrow> pystr \<Rightarrow> preview_state \<Rightarrow> pystr \<Rightarrow> preview_state" where
  "skip_item name base st item =
     st\<lparr>next_index := next_index st + 1,
        tree := tree st @
          [\<lparr>item_index = next_index st, matched_name = name, original_item = item,
            target_name = base, status = Skipped\<rparr>]\<rparr>"

definition preview_group ::
  "(pystr \<Rightarrow> pystr) \<Rightarrow> (pystr \<Rightarrow> bool) \<Rightarrow> config \<Rightarrow> (pystr \<times> pystr) list \<Rightarrow>
   preview_state \<Rightarrow> pystr \<times> pystr list \<Rightarrow> preview_state" where
  "preview_group lower exists cfg file_mapping st = (\<lambda>(name, items).
     (let base = base_target_name cfg file_mapping name
      in if 1 < length items \<and> duplicate_handling cfg = Skip
         then foldl (skip_item name base) st items
         else foldl (preview_item lower exists cfg name base (length items)) st
                (enumerate 0 items)))"

text \<open>
  \<open>generate_preview\<close>: nothing without matched files; else the rows of the groups, in the
  order of the groups, then the unmatched rows kept from the table as it was.
\<close>

definition generate_preview ::
  "(pystr \<Rightarrow> pystr) \<Rightarrow> (pystr \<Rightarrow> bool) \<Rightarrow> config \<Rightarrow> (pystr \<times> pystr) list \<Rightarrow>
   (pystr \<times> pystr list) list \<Rightarrow> row list \<Rightarrow> preview_state option" where
  "generate_preview lower exists cfg file_mapping matched old_tree =
     (if matched = [] then None
      else
        let items_to_keep = filter (\<lambda>r. status r = Unmatched) old_tree;
            st = foldl (preview_group lower exists cfg file_mapping)
                   \<lparr>target_filenames_in_preview = {}, next_index = 1, tree = []\<rparr> matched
        in Some (st\<lparr>tree := tree st @ items_to_keep\<rparr>))"

section \<open>Execution\<close>

text \<open>
  The calls that copy or archive one item. The file system, the copy and archive routines,
  the search path, the current directory and the confirmation dialog are outside the
  program: \<open>collaborators\<close> holds them, over a file-system state \<open>'fs\<close>. A call that raises
  returns the message the program shows (\<open>error_msg\<close>), and the file system as the call
  left it.
\<close>

datatype action =
    MakeArchive pystr pystr pystr
  | RunArchiver "pystr list"
  | Copy2 pystr pystr
  | CopyTree pystr pystr

record 'fs collaborators =
  path_exists :: "'fs \<Rightarrow> pystr \<Rightarrow> bool"
  perform :: "'fs \<Rightarrow> action \<Rightarrow> pystr option \<times> 'fs"
  makedirs :: "'fs \<Rightarrow> pystr \<Rightarrow> pystr option \<times> 'fs"
  which :: "'fs \<Rightarrow> pystr \<Rightarrow> bool"
  abspath :: "pystr \<Rightarrow> pystr"
  askyesno :: "nat \<Rightarrow> bool"

definition is_error :: "status \<Rightarrow> bool" where
  "is_error s = (case s of Error _ \<Rightarrow> True | _ \<Rightarrow> False)"

text \<open>The messages of the two checks before the action (lines 615 and 616).\<close>

definition msg_target_exists :: pystr where
  "msg_target_exists = cps ''FileExistsError: '' @ [30446, 26631, 24050, 23384, 22312]"

definition msg_source_missing :: pystr where
  "msg_source_missing = cps ''FileNotFoundError: '' @ [28304, 19981, 23384, 22312]"

text \<open>The action for a row (lines 618 to 640).\<close>

definition action_for :: "'fs collaborators \<Rightarrow> config \<Rightarrow> row \<Rightarrow> action" where
  "action_for C cfg r =
     (let original_name = original_item r;
          src_path = path_join (source_folder_path cfg) original_name;
          dst_path = path_join (target_folder_path cfg) (target_name r)
      in if is_compressing cfg then
           (if compress_format cfg = cps ''zip'' then
              MakeArchive (fst (splitext dst_path)) (source_folder_path cfg) original_name
            else
              let abs_src_path = abspath C src_path;
                  abs_dst_path = abspath C dst_path
              in RunArchiver
                   (if compress_format cfg = cps ''7z''
                    then [cps ''7z.exe'', cps ''a'', cps ''-t7z'', abs_dst_path, abs_src_path]
                    else if compress_format cfg = cps ''rar''
                    then [cps ''Rar.exe'', cps ''a'', cps ''-r'', abs_dst_path, abs_src_path]
                    else []))
         else if rename_mode cfg = FileMode then Copy2 src_path dst_path
         else CopyTree src_path dst_path)"

text \<open>
  The state of the execution loop: the file system, the three counters, and the actions
  handed to the collaborators so far.
\<close>

record 'fs exec_state =
  fs :: 'fs
  success_count :: nat
  skip_count :: nat
  error_count :: nat
  actions :: "action list"

text \<open>One pass of the loop (lines 602 to 655): the row as it is afterwards, and the state.\<close>

definition execute_item ::
  "'fs collaborators \<Rightarrow> config \<Rightarrow> 'fs exec_state \<Rightarrow> row \<Rightarrow> row \<times> 'fs exec_state" where
  "execute_item C cfg st r =
     (if status r \<noteq> Pending then
        (r, if status r \<noteq> Success \<and> \<not> is_error (status r)
            then st\<lparr>skip_count := skip_count st + 1\<rparr> else st)
      else
        let src_path = path_join (source_folder_path cfg) (original_item r);
            dst_path = path_join (target_folder_path cfg) (target_name r)
        in if path_exists C (fs st) dst_path then
             (r\<lparr>status := Error (take 60 msg_target_exists)\<rparr>,
              st\<lparr>error_count := error_count st + 1\<rparr>)
           else if \<not> path_exists C (fs st) src_path then
             (r\<lparr>status := Error (take 60 msg_source_missing)\<rparr>,
              st\<lparr>error_count := error_count st + 1\<rparr>)
           else
             (case perform C (fs st) (action_for C cfg r) of
                (None, fs') \<Rightarrow>
                  (r\<lparr>status := Success\<rparr>,
                   st\<lparr>fs := fs', success_count := success_count st + 1,
                      actions := actions st @ [action_for C cfg r]\<rparr>)
              | (Some error_msg, fs') \<Rightarrow>
                  (r\<lparr>status := Error (take 60 error_msg)\<rparr>,
                   st\<lparr>fs := fs', error_count := error_count st + 1,
                      actions := actions st @ [action_for C cfg r]\<rparr>)))"

fun execute_items ::
  "'fs collaborators \<Rightarrow> config \<Rightarrow> 'fs exec_state \<Rightarrow> row list \<Rightarrow> row list \<times> 'fs exec_state" where
  "execute_items C cfg st [] = ([], st)"
| "execute_items C cfg st (r # rs) =
     (let (r', st') = execute_item C cfg st r;
          (rs', st'') = execute_items C cfg st' rs
      in (r' # rs', st''))"

text \<open>
  How a call of \<open>execute_rename\<close> ends: with one of the four early returns, or with the
  summary of the three counters.
\<close>

datatype outcome =
    NoPendingItems
  | Declined
  | DependencyMissing pystr
  | MakedirsFailed pystr
  | Completed nat nat nat

record 'fs exec_result =
  outcome :: outcome
  result_fs :: 'fs
  result_tree :: "row list"
  performed :: "action list"

definition execute_rename ::
  "'fs collaborators \<Rightarrow> config \<Rightarrow> 'fs \<Rightarrow> row list \<Rightarrow> 'fs exec_result" where
  "execute_rename C cfg fs0 tree0 =
     (let pending_items = filter (\<lambda>r. status r = Pending) tree0;
          tool = (if compress_format cfg = cps ''7z'' then cps ''7z.exe'' else cps ''Rar.exe'')
      in if pending_items = [] then
           \<lparr>outcome = NoPendingItems, result_fs = fs0, result_tree = tree0, performed = []\<rparr>
         else if \<not> askyesno C (length pending_items) then
           \<lparr>outcome = Declined, result_fs = fs0, result_tree = tree0, performed = []\<rparr>
         else if is_compressing cfg \<and> compress_format cfg \<in> {cps ''7z'', cps ''rar''} \<and>
                 \<not> which C fs0 tool then
           \<lparr>outcome = DependencyMissing tool, result_fs = fs0, result_tree = tree0,
            performed = []\<rparr>
         else
           (case makedirs C fs0 (target_folder_path cfg) of
              (Some e, fs1) \<Rightarrow>
                \<lparr>outcome = MakedirsFailed e, result_fs = fs1, result_tree = tree0,
                 performed = []\<rparr>
            | (None, fs1) \<Rightarrow>
                let (tree', st) =
                      execute_items C cfg
                        \<lparr>fs = fs1, success_count = 0, skip_count = 0, error_count = 0,
                         actions = []\<rparr> tree0
                in \<lparr>outcome = Completed (success_count st) (skip_count st) (error_count st),
                    result_fs = fs st, result_tree = tree', performed = actions st\<rparr>))"

section \<open>Concrete inputs for the examples\<close>

text \<open>A configuration: files, suffix policy, no compression.\<close>

definition cfg0 :: config where
  "cfg0 =
     \<lparr>rename_mode = FileMode, duplicate_handling = Suffix, compress_folder = False,
      compress_format = cps ''zip'', source_folder_path = cps ''src'',
      target_folder_path = cps ''out''\<rparr>"

text \<open>
  A file system for the examples: the set of the paths that exist. Copying adds the
  destination; nothing fails.
\<close>

definition set_fs :: "pystr set collaborators" where
  "set_fs =
     \<lparr>path_exists = (\<lambda>fs p. p \<in> fs),
      perform = (\<lambda>fs a. case a of
                   Copy2 src dst \<Rightarrow> (None, insert dst fs)
                 | CopyTree src dst \<Rightarrow> (None, insert dst fs)
                 | _ \<Rightarrow> (None, fs)),
      makedirs = (\<lambda>fs p. (None, insert p fs)),
      which = (\<lambda>fs p. False),
      abspath = (\<lambda>p. p),
      askyesno = (\<lambda>n. True)\<rparr>"

definition mk_row :: "nat \<Rightarrow> string \<Rightarrow> string \<Rightarrow> string \<Rightarrow> status \<Rightarrow> row" where
  "mk_row i k src dst s =
     \<lparr>item_index = i, matched_name = cps k, original_item = cps src, target_name = cps dst,
      status = s\<rparr>"

text \<open>Two tables: one with the keys \<open>Bob\<close> and \<open>bob\<close>, one with a missing and a blank key.\<close>

definition rows_dup :: "(cell \<times> cell) list" where
  "rows_dup =
     [(Some (cps ''Bob''), Some (cps ''x.pdf'')),
      (Some (cps ''al''), Some (cps ''y.pdf'')),
      (Some (cps '' bob''), Some (cps ''z.pdf''))]"


text \<open>
  Three keys whose target names differ in case only, one item each; the target folder
  holds \<open>Report.pdf\<close>. \<open>st_report\<close> is the preview of it.
\<close>

definition fm_report :: "(pystr \<times> pystr) list" where
  "fm_report =
     [(cps ''A'', cps ''Report.pdf''), (cps ''B'', cps ''report.pdf''),
      (cps ''C'', cps ''REPORT.pdf'')]"

definition matched_report :: "(pystr \<times> pystr list) list" where
  "matched_report =
     [(cps ''A'', [cps ''a.pdf'']), (cps ''B'', [cps ''b.pdf'']), (cps ''C'', [cps ''c.pdf''])]"

definition exists_report :: "pystr \<Rightarrow> bool" where
  "exists_report p \<longleftrightarrow> p = cps ''out/Report.pdf''"

definition st_report :: preview_state where
  "st_report =
     \<lparr>target_filenames_in_preview = {cps ''report.pdf''}, next_index = 4,
      tree = [mk_row 1 ''A'' ''a.pdf'' ''Report.pdf'' TargetExists,
              mk_row 2 ''B'' ''b.pdf'' ''report.pdf'' Pending,
              mk_row 3 ''C'' ''c.pdf'' ''REPORT.pdf'' PreviewConflict]\<rparr>"






definition tree_done :: "row list" where
  "tree_done =
     [mk_row 1 ''A'' ''a.pdf'' ''x.pdf'' Success,
      mk_row 2 ''B'' ''b.pdf'' ''y.pdf'' Skipped,
      mk_row 3 ''C'' ''c.pdf'' ''z.pdf'' (Error (cps ''FileNotFoundError''))]"

section \<open>Predicates used in the proofs\<close>




text \<open>
  The keys in conflict: a key is in conflict when another row of the cleaned table has a
  key with the same lower-case form.
\<close>

definition conflicting_keys :: "(pystr \<Rightarrow> pystr) \<Rightarrow> (pystr \<times> pystr) list \<Rightarrow> pystr set" where
  "conflicting_keys lower df =
     {fst (df ! i) | i. i < length df \<and>
        (\<exists>j. j < length df \<and> j \<noteq> i \<and> lower (fst (df ! j)) = lower (fst (df ! i)))}"

text \<open>
  The names reserved by a list of rows: the target names of its pending rows. The status
  that the three checks of the preview give a candidate after the rows \<open>earlier\<close>.
\<close>

definition reserved_by :: "row list \<Rightarrow> pystr set" where
  "reserved_by rs = {target_name r | r. r \<in> set rs \<and> status r = Pending}"

definition resolved_status ::
  "(pystr \<Rightarrow> pystr) \<Rightarrow> (pystr \<Rightarrow> bool) \<Rightarrow> config \<Rightarrow> row list \<Rightarrow> pystr \<Rightarrow> status" where
  "resolved_status lower exists cfg earlier candidate =
     (if lower candidate \<in> lower ` reserved_by earlier then PreviewConflict
      else if exists (path_join (target_folder_path cfg) candidate) then TargetExists
      else Pending)"

definition resolved_at ::
  "(pystr \<Rightarrow> pystr) \<Rightarrow> (pystr \<Rightarrow> bool) \<Rightarrow> config \<Rightarrow> row list \<Rightarrow> nat \<Rightarrow> bool" where
  "resolved_at lower exists cfg rs k \<longleftrightarrow>
     status (rs ! k) = Skipped \<or>
     status (rs ! k) = resolved_status lower exists cfg (take k rs) (target_name (rs ! k))"

definition preview_inv ::
  "(pystr \<Rightarrow> pystr) \<Rightarrow> (pystr \<Rightarrow> bool) \<Rightarrow> config \<Rightarrow> preview_state \<Rightarrow> bool" where
  "preview_inv lower exists cfg st \<longleftrightarrow>
     target_filenames_in_preview st = reserved_by (tree st) \<and>
     (\<forall>k<length (tree st). resolved_at lower exists cfg (tree st) k)"

text \<open>
  The entries of the match result in the order of the preview: key, size of the group,
  position in the group, item. A group is skipped as a whole when it has more than one
  item and the policy is \<open>Skip\<close>.
\<close>

definition group_entries :: "pystr \<times> pystr list \<Rightarrow> (pystr \<times> nat \<times> nat \<times> pystr) list" where
  "group_entries = (\<lambda>(name, items).
     map (\<lambda>(i, item). (name, length items, i, item)) (enumerate 0 items))"

definition entries :: "(pystr \<times> pystr list) list \<Rightarrow> (pystr \<times> nat \<times> nat \<times> pystr) list" where
  "entries matched = concat (map group_entries matched)"

definition skipped_group :: "config \<Rightarrow> nat \<Rightarrow> bool" where
  "skipped_group cfg n \<longleftrightarrow> 1 < n \<and> duplicate_handling cfg = Skip"

definition expected_shape ::
  "config \<Rightarrow> (pystr \<times> pystr) list \<Rightarrow> pystr \<times> nat \<times> nat \<times> pystr \<Rightarrow>
   pystr \<times> pystr \<times> pystr \<times> bool" where
  "expected_shape cfg file_mapping = (\<lambda>(name, n, i, item).
     (name, item,
      (if skipped_group cfg n then base_target_name cfg file_mapping name
       else final_target_name cfg (base_target_name cfg file_mapping name) n i),
      skipped_group cfg n))"

definition row_shape :: "row \<Rightarrow> pystr \<times> pystr \<times> pystr \<times> bool" where
  "row_shape r = (matched_name r, original_item r, target_name r, status r = Skipped)"

definition index_inv :: "preview_state \<Rightarrow> bool" where
  "index_inv st \<longleftrightarrow> map item_index (tree st) = [1..<next_index st] \<and> 0 < next_index st"






section \<open>The sanitizer: properties\<close>

lemma rstrip_Cons:
  "rstrip (c # s) = (if rstrip s = [] \<and> isspace c then [] else c # rstrip s)"
  by (simp split: list.splits)

declare rstrip.simps(2) [simp del]

declare rstrip_Cons [simp]

lemma splitext_append: "fst (splitext p) @ snd (splitext p) = p"
  by (simp add: splitext_def Let_def)

lemma set_collapse_dots: "set (collapse_dots s) \<subseteq> set s"
  by (induction s rule: collapse_dots.induct) auto

lemma set_collapse_ws: "set (collapse_ws s) \<subseteq> insert 32 (set s)"
proof (induction s rule: collapse_ws.induct)
  case 1
  then show ?case by simp
next
  case (2 c s)
  have "set (dropWhile isspace s) \<subseteq> set s" by (rule set_dropWhileD[THEN subsetI]) 
  with 2 show ?case by auto
qed

lemma set_rstrip: "set (rstrip s) \<subseteq> set s"
  by (induction s) (auto simp: Let_def)

lemma set_strip: "set (strip s) \<subseteq> set s"
  unfolding strip_def lstrip_def using set_rstrip set_dropWhileD by fastforce

lemma set_clean: "set (clean s) \<subseteq> insert 32 {c \<in> set s. \<not> is_reserved c \<and> \<not> is_control c}"
proof -
  let ?f = "filter (\<lambda>c. \<not> is_control c) (filter (\<lambda>c. \<not> is_reserved c) s)"
  have "set (clean s) \<subseteq> set (collapse_ws (collapse_dots ?f))"
    unfolding clean_def by (rule set_strip)
  also have "\<dots> \<subseteq> insert 32 (set (collapse_dots ?f))" by (rule set_collapse_ws)
  also have "\<dots> \<subseteq> insert 32 (set ?f)" using set_collapse_dots by blast
  finally show ?thesis by auto
qed

lemma clean_chars: "c \<in> set (clean s) \<Longrightarrow> \<not> is_reserved c \<and> \<not> is_control c"
  using set_clean[of s] by (auto simp: is_reserved_def is_control_def)

lemma unnamed_chars: "c \<in> set unnamed \<Longrightarrow> \<not> is_reserved c \<and> \<not> is_control c"
  by (auto simp: unnamed_def is_reserved_def is_control_def)

lemma set_sanitize: "set (sanitize_filename x) \<subseteq> set (clean x) \<union> set unnamed"
proof -
  obtain name ext where ne: "splitext (clean x) = (name, ext)" by force
  have "clean x = name @ ext" using splitext_append[of "clean x"] ne by simp
  then have "set name \<subseteq> set (clean x)" "set ext \<subseteq> set (clean x)" by auto
  moreover have "set (take n name) \<subseteq> set name" "set (take m (clean x)) \<subseteq> set (clean x)" for n m
    by (auto dest: in_set_takeD)
  ultimately show ?thesis
    unfolding sanitize_filename_def Let_def ne by (auto dest: in_set_takeD)
qed

lemma sanitize_nonempty: "sanitize_filename x \<noteq> []"
  by (auto simp: sanitize_filename_def Let_def unnamed_def split: prod.splits)

lemma sanitize_length: "length (sanitize_filename x) \<le> 255"
  by (auto simp: sanitize_filename_def Let_def unnamed_def MAX_FILENAME_LENGTH_def split: prod.splits)




lemma isspace_32: "isspace 32" by (simp add: isspace_def)

lemma isspace_not_46: "isspace c \<Longrightarrow> c \<noteq> 46" by (auto simp: isspace_def)










































text \<open>
  C7. For every input string the sanitizer returns a string that is not empty, is at most
  255 code points long, and contains no reserved character and no control character.
  The model has no failing branch: the function is total on strings.
\<close>

theorem sanitize_filename_valid:
  "sanitize_filename x \<noteq> [] \<and>
   length (sanitize_filename x) \<le> 255 \<and>
   set (sanitize_filename x) \<inter> {c. is_reserved c \<or> is_control c} = {}"
proof -
  have "c \<in> set (sanitize_filename x) \<Longrightarrow> \<not> is_reserved c \<and> \<not> is_control c" for c
    using set_sanitize[of x] clean_chars[of c x] unnamed_chars[of c] by blast
  then show ?thesis
    using sanitize_nonempty[of x] sanitize_length[of x] by blast
qed




section \<open>Loading the mapping: properties\<close>

lemma count_list_pos_iff: "0 < count_list xs v \<longleftrightarrow> v \<in> set xs"
  by (induction xs) auto

lemma duplicated_Cons:
  "duplicated (x # xs) v \<longleftrightarrow> (x = v \<and> v \<in> set xs) \<or> duplicated xs v"
  by (auto simp: duplicated_def count_list_pos_iff[symmetric])

lemma duplicated_iff:
  "duplicated xs v \<longleftrightarrow> (\<exists>a b. a < b \<and> b < length xs \<and> xs ! a = v \<and> xs ! b = v)"
proof (induction xs)
  case Nil
  show ?case by (simp add: duplicated_def)
next
  case (Cons x xs)
  show ?case
  proof
    assume "duplicated (x # xs) v"
    then consider "x = v" "v \<in> set xs" | "duplicated xs v" by (auto simp: duplicated_Cons)
    then show "\<exists>a b. a < b \<and> b < length (x # xs) \<and> (x # xs) ! a = v \<and> (x # xs) ! b = v"
    proof cases
      case 1
      then obtain i where "i < length xs" "xs ! i = v" by (auto simp: in_set_conv_nth)
      with 1 have "0 < Suc i \<and> Suc i < length (x # xs) \<and> (x # xs) ! 0 = v \<and> (x # xs) ! Suc i = v"
        by simp
      then show ?thesis by blast
    next
      case 2
      with Cons obtain a b where "a < b" "b < length xs" "xs ! a = v" "xs ! b = v" by blast
      then have "Suc a < Suc b \<and> Suc b < length (x # xs) \<and> (x # xs) ! Suc a = v \<and> (x # xs) ! Suc b = v"
        by simp
      then show ?thesis by blast
    qed
  next
    assume "\<exists>a b. a < b \<and> b < length (x # xs) \<and> (x # xs) ! a = v \<and> (x # xs) ! b = v"
    then obtain a b where ab: "a < b" "b < length (x # xs)" "(x # xs) ! a = v" "(x # xs) ! b = v"
      by blast
    then obtain b' where b': "b = Suc b'" by (cases b) auto
    show "duplicated (x # xs) v"
    proof (cases a)
      case 0
      with ab b' have "x = v" "xs ! b' = v" "b' < length xs" by auto
      then show ?thesis by (auto simp: duplicated_Cons)
    next
      case (Suc a')
      with ab b' have "a' < b' \<and> b' < length xs \<and> xs ! a' = v \<and> xs ! b' = v" by auto
      with Cons have "duplicated xs v" by blast
      then show ?thesis by (simp add: duplicated_Cons)
    qed
  qed
qed





lemma set_unique: "set (unique xs) = set xs"
  by (simp add: unique_def)

lemma distinct_unique: "distinct (unique xs)"
  by (simp add: unique_def)

lemma name_duplicates_set:
  "fst ` set (filter (\<lambda>(k, t). duplicated (map (lower \<circ> fst) df) (lower k)) df) =
   conflicting_keys lower df" (is "?L = ?R")
proof (rule set_eqI)
  fix k
  let ?col = "map (lower \<circ> fst) df"
  have col: "?col ! n = lower (fst (df ! n))" if "n < length df" for n
    using that by simp
  show "k \<in> ?L \<longleftrightarrow> k \<in> ?R"
  proof
    assume "k \<in> ?L"
    then obtain t where kt: "(k, t) \<in> set df" and dup: "duplicated ?col (lower k)" by auto
    from dup obtain a b where ab: "a < b" "b < length ?col" "?col ! a = lower k" "?col ! b = lower k"
      unfolding duplicated_iff by blast
    then have bl: "b < length df" and al: "a < length df" by simp_all
    from kt obtain i where i: "i < length df" "df ! i = (k, t)" unfolding in_set_conv_nth by blast
    then have ki: "fst (df ! i) = k" by simp
    from ab(3) col[OF al] have la: "lower (fst (df ! a)) = lower (fst (df ! i))" by (simp only: ki)
    from ab(4) col[OF bl] have lb: "lower (fst (df ! b)) = lower (fst (df ! i))" by (simp only: ki)
    have "\<exists>j. j < length df \<and> j \<noteq> i \<and> lower (fst (df ! j)) = lower (fst (df ! i))"
    proof (cases "a = i")
      case True
      with ab(1) have "b \<noteq> i" by simp
      with bl lb show ?thesis by blast
    next
      case False
      with al la show ?thesis by blast
    qed
    with i(1) ki show "k \<in> ?R" unfolding conflicting_keys_def by blast
  next
    assume "k \<in> ?R"
    then obtain i j where ij: "i < length df" "k = fst (df ! i)" "j < length df" "j \<noteq> i"
        "lower (fst (df ! j)) = lower (fst (df ! i))"
      unfolding conflicting_keys_def by blast
    have ci: "?col ! i = lower k" using col[OF ij(1)] ij(2) by simp
    have cj: "?col ! j = lower k" using col[OF ij(3)] ij(2) ij(5) by simp
    have len: "length ?col = length df" by simp
    have "\<exists>a b. a < b \<and> b < length ?col \<and> ?col ! a = lower k \<and> ?col ! b = lower k"
    proof (cases "i < j")
      case True
      with ci cj ij(3) len show ?thesis by metis
    next
      case False
      with ij(4) have "j < i" by simp
      with ci cj ij(1) len show ?thesis by metis
    qed
    then have d: "duplicated ?col (lower k)" unfolding duplicated_iff .
    have "df ! i \<in> set df" using ij(1) by simp
    moreover have "df ! i = (k, snd (df ! i))" using ij(2) by simp
    ultimately have "(k, snd (df ! i)) \<in> set df" by simp
    with d have "(k, snd (df ! i)) \<in> set (filter (\<lambda>(k, t). duplicated ?col (lower k)) df)"
      by simp
    then show "k \<in> ?L" by (rule image_eqI[rotated]) simp
  qed
qed

lemma build_mapping_duplicate_key:
  assumes "a < b" "b < length (cleaned_rows rows)"
    "lower (fst (cleaned_rows rows ! a)) = lower (fst (cleaned_rows rows ! b))"
  shows "\<exists>ks. build_mapping lower rows = Inl (DuplicateKey ks) \<and> sorted ks \<and> distinct ks \<and>
     set ks = conflicting_keys lower (cleaned_rows rows)"
proof -
  let ?df = "cleaned_rows rows"
  let ?nd = "filter (\<lambda>(k, t). duplicated (map (lower \<circ> fst) ?df) (lower k)) ?df"
  let ?ks = "sort (unique (map fst ?nd))"
  have "fst (?df ! a) \<in> conflicting_keys lower ?df"
    unfolding conflicting_keys_def using assms by force
  then have "fst ` set ?nd \<noteq> {}" unfolding name_duplicates_set by blast
  have ne: "?nd \<noteq> []"
  proof
    assume e: "?nd = []"
    have "fst ` set ?nd = {}" unfolding e by simp
    with \<open>fst ` set ?nd \<noteq> {}\<close> show False by blast
  qed
  have "build_mapping lower rows = Inl (DuplicateKey ?ks)"
    unfolding build_mapping_def Let_def by (simp only: ne if_True not_False_eq_True)
  moreover have "sorted ?ks" by simp
  moreover have "distinct ?ks" by (simp add: distinct_unique)
  moreover have "set ?ks = conflicting_keys lower ?df"
    using name_duplicates_set[of lower ?df] by (simp add: set_unique)
  ultimately show ?thesis by blast
qed




text \<open>
  C4. When two rows of the cleaned table have keys that are equal after lower-casing,
  loading fails with \<open>DuplicateKey\<close>; the error carries the keys in conflict, each once,
  in sorted order; no mapping and no match result is returned.
\<close>

theorem load_files_duplicate_key:
  assumes "a < b" and "b < length (cleaned_rows rows)"
    and "lower (fst (cleaned_rows rows ! a)) = lower (fst (cleaned_rows rows ! b))"
  shows "\<exists>ks. load_files lower mt rows source_items = Inl (DuplicateKey ks) \<and>
           sorted ks \<and> distinct ks \<and> set ks = conflicting_keys lower (cleaned_rows rows)"
proof -
  from build_mapping_duplicate_key[OF assms] obtain ks where
    "build_mapping lower rows = Inl (DuplicateKey ks)" "sorted ks" "distinct ks"
    "set ks = conflicting_keys lower (cleaned_rows rows)" by blast
  then show ?thesis by (auto simp: load_files_def)
qed

theorem load_files_duplicate_key_witness:
  "(0::nat) < 2 \<and> 2 < length (cleaned_rows rows_dup) \<and>
   ascii_lower (fst (cleaned_rows rows_dup ! 0)) = ascii_lower (fst (cleaned_rows rows_dup ! 2)) \<and>
   load_files ascii_lower Contains rows_dup [] = Inl (DuplicateKey [cps ''Bob'', cps ''bob'']) \<and>
   (\<exists>ks. load_files ascii_lower Contains rows_dup [] = Inl (DuplicateKey ks) \<and>
      sorted ks \<and> distinct ks \<and>
      set ks = conflicting_keys ascii_lower (cleaned_rows rows_dup))"
proof -
  have h1: "(0::nat) < 2" by simp
  have h2: "2 < length (cleaned_rows rows_dup)" by code_simp
  have h3: "ascii_lower (fst (cleaned_rows rows_dup ! 0)) =
            ascii_lower (fst (cleaned_rows rows_dup ! 2))" by code_simp
  have e: "load_files ascii_lower Contains rows_dup [] = Inl (DuplicateKey [cps ''Bob'', cps ''bob''])"
    by code_simp
  from load_files_duplicate_key[OF h1 h2 h3, of Contains "[]"] h1 h2 h3 e show ?thesis by blast
qed




section \<open>The matcher: properties\<close>

text \<open>
  C1. With the keys \<open>An\<close> and \<open>Anna\<close>, the Contains match type and the listing
  \<open>Anna_report.pdf\<close>, \<open>Andy.txt\<close>, \<open>Bob.txt\<close>, the keys are tried in the order
  \<open>Anna\<close>, \<open>An\<close>; \<open>Anna_report.pdf\<close> goes to the group of \<open>Anna\<close>, \<open>Andy.txt\<close>
  to the group of \<open>An\<close>, and \<open>Bob.txt\<close> is unmatched.
\<close>

theorem match_files_an_anna:
  "sorted_names [cps ''An'', cps ''Anna''] = [cps ''Anna'', cps ''An''] \<and>
   match_files ascii_lower Contains [cps ''An'', cps ''Anna'']
     [cps ''Anna_report.pdf'', cps ''Andy.txt'', cps ''Bob.txt''] =
   \<lparr>matched_files = [(cps ''Anna'', [cps ''Anna_report.pdf'']), (cps ''An'', [cps ''Andy.txt''])],
    processed_items = {cps ''Anna_report.pdf'', cps ''Andy.txt''},
    unmatched_items = [cps ''Bob.txt'']\<rparr>"
  by code_simp

section \<open>The preview: properties\<close>

lemma reserved_by_append: "reserved_by (rs @ rs') = reserved_by rs \<union> reserved_by rs'"
  by (auto simp: reserved_by_def)

lemma reserved_by_single:
  "reserved_by [r] = (if status r = Pending then {target_name r} else {})"
  by (auto simp: reserved_by_def)

lemma resolved_at_append_old:
  "k < length rs \<Longrightarrow> resolved_at lower exists cfg (rs @ rs') k = resolved_at lower exists cfg rs k"
  by (simp add: resolved_at_def nth_append)

lemma preview_inv_append:
  assumes "preview_inv lower exists cfg st"
    and "tree st' = tree st @ [r]"
    and "target_filenames_in_preview st' =
           (if status r = Pending then insert (target_name r) (target_filenames_in_preview st)
            else target_filenames_in_preview st)"
    and "status r = Skipped \<or>
         status r = resolved_status lower exists cfg (tree st) (target_name r)"
  shows "preview_inv lower exists cfg st'"
proof -
  from assms(1) have res: "target_filenames_in_preview st = reserved_by (tree st)"
    and old: "\<And>k. k < length (tree st) \<Longrightarrow> resolved_at lower exists cfg (tree st) k"
    by (auto simp: preview_inv_def)
  have "target_filenames_in_preview st' = reserved_by (tree st')"
    using assms(2,3) res by (auto simp: reserved_by_append reserved_by_single)
  moreover have "resolved_at lower exists cfg (tree st') k" if "k < length (tree st')" for k
  proof (cases "k < length (tree st)")
    case True
    then show ?thesis using old[OF True] by (simp add: assms(2) resolved_at_append_old)
  next
    case False
    with that assms(2) have k: "k = length (tree st)" by simp
    show ?thesis using assms(4) by (simp add: resolved_at_def assms(2) k)
  qed
  ultimately show ?thesis by (simp add: preview_inv_def)
qed

lemma preview_item_inv:
  "preview_inv lower exists cfg st \<Longrightarrow>
   preview_inv lower exists cfg (preview_item lower exists cfg name base n st (i, item))"
proof (rule preview_inv_append[where r = "last (tree (preview_item lower exists cfg name base n st (i, item)))"])
  assume inv: "preview_inv lower exists cfg st"
  then show "preview_inv lower exists cfg st" .
  from inv have res: "target_filenames_in_preview st = reserved_by (tree st)"
    by (simp add: preview_inv_def)
  show "tree (preview_item lower exists cfg name base n st (i, item)) =
        tree st @ [last (tree (preview_item lower exists cfg name base n st (i, item)))]"
    by (simp add: preview_item_def Let_def)
  show "target_filenames_in_preview (preview_item lower exists cfg name base n st (i, item)) =
        (if status (last (tree (preview_item lower exists cfg name base n st (i, item)))) = Pending
         then insert (target_name (last (tree (preview_item lower exists cfg name base n st (i, item)))))
                (target_filenames_in_preview st)
         else target_filenames_in_preview st)"
    by (simp add: preview_item_def Let_def)
  show "status (last (tree (preview_item lower exists cfg name base n st (i, item)))) = Skipped \<or>
        status (last (tree (preview_item lower exists cfg name base n st (i, item)))) =
        resolved_status lower exists cfg (tree st)
          (target_name (last (tree (preview_item lower exists cfg name base n st (i, item)))))"
    by (simp add: preview_item_def Let_def resolved_status_def res)
qed

lemma skip_item_inv:
  "preview_inv lower exists cfg st \<Longrightarrow> preview_inv lower exists cfg (skip_item name base st item)"
  by (rule preview_inv_append[where r = "last (tree (skip_item name base st item))"])
     (simp_all add: skip_item_def)

lemma foldl_inv:
  "(\<And>s x. P s \<Longrightarrow> P (f s x)) \<Longrightarrow> P s \<Longrightarrow> P (foldl f s xs)"
  by (induction xs arbitrary: s) auto

lemma preview_group_inv:
  "preview_inv lower exists cfg st \<Longrightarrow>
   preview_inv lower exists cfg (preview_group lower exists cfg file_mapping st g)"
proof -
  assume inv: "preview_inv lower exists cfg st"
  obtain name items where g: "g = (name, items)" by (cases g)
  let ?base = "base_target_name cfg file_mapping name"
  have a: "preview_inv lower exists cfg (foldl (skip_item name ?base) st items)"
    by (rule foldl_inv[where P = "preview_inv lower exists cfg"]) (auto intro: skip_item_inv inv)
  have b: "preview_inv lower exists cfg
             (foldl (preview_item lower exists cfg name ?base (length items)) st (enumerate 0 items))"
  proof (rule foldl_inv[where P = "preview_inv lower exists cfg"])
    fix s x assume "preview_inv lower exists cfg s"
    then show "preview_inv lower exists cfg (preview_item lower exists cfg name ?base (length items) s x)"
      using preview_item_inv[of lower exists cfg s name ?base "length items" "fst x" "snd x"] by simp
  qed (rule inv)
  from a b show ?thesis by (simp add: g preview_group_def Let_def)
qed

lemma preview_inv_init:
  "preview_inv lower exists cfg \<lparr>target_filenames_in_preview = {}, next_index = 1, tree = []\<rparr>"
  by (simp add: preview_inv_def reserved_by_def)

lemma preview_groups_inv:
  "preview_inv lower exists cfg
     (foldl (preview_group lower exists cfg file_mapping)
        \<lparr>target_filenames_in_preview = {}, next_index = 1, tree = []\<rparr> matched)"
proof (rule foldl_inv[where P = "preview_inv lower exists cfg"])
  show "preview_inv lower exists cfg
          \<lparr>target_filenames_in_preview = {}, next_index = 1, tree = []\<rparr>"
    by (rule preview_inv_init)
qed (rule preview_group_inv)

lemma reserved_by_unmatched: "reserved_by (filter (\<lambda>r. status r = Unmatched) rs) = {}"
  by (auto simp: reserved_by_def)

lemma preview_item_shape:
  "map row_shape (tree (preview_item lower exists cfg name base n st (i, item))) =
   map row_shape (tree st) @ [(name, item, final_target_name cfg base n i, False)]"
  by (simp add: preview_item_def Let_def row_shape_def)

lemma foldl_preview_item_shape:
  "map row_shape (tree (foldl (preview_item lower exists cfg name base n) st (enumerate m items))) =
   map row_shape (tree st) @
   map (\<lambda>(i, item). (name, item, final_target_name cfg base n i, False)) (enumerate m items)"
proof (induction items arbitrary: st m)
  case Nil
  show ?case by simp
next
  case (Cons x xs)
  show ?case by (simp add: Cons.IH preview_item_shape)
qed

lemma skip_item_shape:
  "map row_shape (tree (skip_item name base st item)) =
   map row_shape (tree st) @ [(name, item, base, True)]"
  by (simp add: skip_item_def row_shape_def)

lemma foldl_skip_item_shape:
  "map row_shape (tree (foldl (skip_item name base) st items)) =
   map row_shape (tree st) @ map (\<lambda>item. (name, item, base, True)) items"
  by (induction items arbitrary: st) (simp_all add: skip_item_shape)

lemma map_enumerate_snd: "map (\<lambda>(i, x). f x) (enumerate m xs) = map f xs"
  by (induction xs arbitrary: m) auto

lemma preview_group_shape:
  "map row_shape (tree (preview_group lower exists cfg file_mapping st g)) =
   map row_shape (tree st) @ map (expected_shape cfg file_mapping) (group_entries g)"
proof -
  obtain name items where g: "g = (name, items)" by (cases g)
  let ?base = "base_target_name cfg file_mapping name"
  show ?thesis
  proof (cases "skipped_group cfg (length items)")
    case True
    have "map (expected_shape cfg file_mapping) (group_entries g) =
          map (\<lambda>(i, item). (name, item, ?base, True)) (enumerate 0 items)"
      using True by (simp add: g group_entries_def expected_shape_def case_prod_beta)
    also have "\<dots> = map (\<lambda>item. (name, item, ?base, True)) items"
      by (rule map_enumerate_snd)
    finally show ?thesis
      using True by (simp add: g preview_group_def Let_def skipped_group_def foldl_skip_item_shape)
  next
    case False
    have "map (expected_shape cfg file_mapping) (group_entries g) =
          map (\<lambda>(i, item). (name, item, final_target_name cfg ?base (length items) i, False))
            (enumerate 0 items)"
      using False by (simp add: g group_entries_def expected_shape_def case_prod_beta)
    then show ?thesis
      using False
      by (auto simp: g preview_group_def Let_def skipped_group_def foldl_preview_item_shape)
  qed
qed

lemma foldl_preview_group_shape:
  "map row_shape (tree (foldl (preview_group lower exists cfg file_mapping) st matched)) =
   map row_shape (tree st) @ map (expected_shape cfg file_mapping) (entries matched)"
  by (induction matched arbitrary: st) (simp_all add: entries_def preview_group_shape)

lemma generate_preview_shape:
  assumes "generate_preview lower exists cfg file_mapping matched old_tree = Some st"
  shows "map row_shape (tree st) =
         map (expected_shape cfg file_mapping) (entries matched) @
         map row_shape (filter (\<lambda>r. status r = Unmatched) old_tree)"
proof -
  let ?st = "foldl (preview_group lower exists cfg file_mapping)
        \<lparr>target_filenames_in_preview = {}, next_index = 1, tree = []\<rparr> matched"
  from assms have st: "st = ?st\<lparr>tree := tree ?st @ filter (\<lambda>r. status r = Unmatched) old_tree\<rparr>"
    by (auto simp: generate_preview_def Let_def split: if_splits)
  have "map row_shape (tree ?st) = map (expected_shape cfg file_mapping) (entries matched)"
    using foldl_preview_group_shape[of lower exists cfg file_mapping
        "\<lparr>target_filenames_in_preview = {}, next_index = 1, tree = []\<rparr>" matched] by simp
  then show ?thesis by (simp add: st)
qed

lemma preview_item_index:
  "next_index (preview_item lower exists cfg name base n st x) = next_index st + 1 \<and>
   map item_index (tree (preview_item lower exists cfg name base n st x)) =
   map item_index (tree st) @ [next_index st]"
  by (cases x) (simp add: preview_item_def Let_def)

lemma skip_item_index:
  "next_index (skip_item name base st item) = next_index st + 1 \<and>
   map item_index (tree (skip_item name base st item)) = map item_index (tree st) @ [next_index st]"
  by (simp add: skip_item_def)

lemma index_inv_step:
  "index_inv st \<Longrightarrow> next_index st' = next_index st + 1 \<and>
     map item_index (tree st') = map item_index (tree st) @ [next_index st] \<Longrightarrow> index_inv st'"
  by (auto simp: index_inv_def)

lemma preview_group_index: "index_inv st \<Longrightarrow> index_inv (preview_group lower exists cfg file_mapping st g)"
proof -
  assume inv: "index_inv st"
  obtain name items where g: "g = (name, items)" by (cases g)
  let ?base = "base_target_name cfg file_mapping name"
  have a: "index_inv (foldl (skip_item name ?base) st items)"
  proof (rule foldl_inv[where P = index_inv])
    fix s x assume "index_inv s"
    then show "index_inv (skip_item name ?base s x)"
      by (rule index_inv_step) (rule skip_item_index)
  qed (rule inv)
  have b: "index_inv (foldl (preview_item lower exists cfg name ?base (length items)) st (enumerate 0 items))"
  proof (rule foldl_inv[where P = index_inv])
    fix s x assume "index_inv s"
    then show "index_inv (preview_item lower exists cfg name ?base (length items) s x)"
      by (rule index_inv_step) (rule preview_item_index)
  qed (rule inv)
  from a b show ?thesis by (simp add: g preview_group_def Let_def)
qed

lemma generate_preview_index:
  assumes "generate_preview lower exists cfg file_mapping matched old_tree = Some st"
    and "k < length (entries matched)"
  shows "item_index (tree st ! k) = k + 1"
proof -
  let ?st = "foldl (preview_group lower exists cfg file_mapping)
        \<lparr>target_filenames_in_preview = {}, next_index = 1, tree = []\<rparr> matched"
  from assms have st: "st = ?st\<lparr>tree := tree ?st @ filter (\<lambda>r. status r = Unmatched) old_tree\<rparr>"
    by (auto simp: generate_preview_def Let_def split: if_splits)
  have "index_inv ?st"
  proof (rule foldl_inv[where P = index_inv])
    show "index_inv \<lparr>target_filenames_in_preview = {}, next_index = 1, tree = []\<rparr>"
      by (simp add: index_inv_def)
  qed (rule preview_group_index)
  then have m: "map item_index (tree ?st) = [1..<next_index ?st]" by (simp add: index_inv_def)
  have "length (map row_shape (tree ?st)) = length (entries matched)"
    using foldl_preview_group_shape[of lower exists cfg file_mapping
        "\<lparr>target_filenames_in_preview = {}, next_index = 1, tree = []\<rparr>" matched] by simp
  then have len: "length (tree ?st) = length (entries matched)" by simp
  with assms(2) have k: "k < length (tree ?st)" by simp
  then have "item_index (tree ?st ! k) = map item_index (tree ?st) ! k" by simp
  also have "\<dots> = [1..<next_index ?st] ! k" by (simp only: m)
  also have "\<dots> = 1 + k"
  proof (rule nth_upt)
    from m have "length (tree ?st) = next_index ?st - 1" by (metis length_map length_upt)
    with k show "1 + k < next_index ?st" by simp
  qed
  finally show ?thesis using k by (simp add: st nth_append)
qed


lemma generate_preview_unfold:
  assumes "generate_preview lower exists cfg file_mapping matched old_tree = Some st"
  obtains st0 where
    "st0 = foldl (preview_group lower exists cfg file_mapping)
        \<lparr>target_filenames_in_preview = {}, next_index = 1, tree = []\<rparr> matched"
    "st = st0\<lparr>tree := tree st0 @ filter (\<lambda>r. status r = Unmatched) old_tree\<rparr>"
    "length (tree st0) = length (entries matched)"
    "preview_inv lower exists cfg st0"
proof -
  let ?st = "foldl (preview_group lower exists cfg file_mapping)
        \<lparr>target_filenames_in_preview = {}, next_index = 1, tree = []\<rparr> matched"
  from assms have st: "st = ?st\<lparr>tree := tree ?st @ filter (\<lambda>r. status r = Unmatched) old_tree\<rparr>"
    by (auto simp: generate_preview_def Let_def split: if_splits)
  have "length (map row_shape (tree ?st)) = length (entries matched)"
    using foldl_preview_group_shape[of lower exists cfg file_mapping
        "\<lparr>target_filenames_in_preview = {}, next_index = 1, tree = []\<rparr>" matched] by simp
  then have len: "length (tree ?st) = length (entries matched)" by simp
  have inv: "preview_inv lower exists cfg ?st" by (rule preview_groups_inv)
  from st len inv show ?thesis using that by blast
qed

lemma generate_preview_reserved:
  assumes "generate_preview lower exists cfg file_mapping matched old_tree = Some st"
  shows "target_filenames_in_preview st = reserved_by (tree st)"
proof -
  from assms obtain st0 where
    st: "st = st0\<lparr>tree := tree st0 @ filter (\<lambda>r. status r = Unmatched) old_tree\<rparr>"
    and inv: "preview_inv lower exists cfg st0"
    by (rule generate_preview_unfold)
  from inv have "target_filenames_in_preview st0 = reserved_by (tree st0)"
    by (simp add: preview_inv_def)
  then show ?thesis by (simp add: st reserved_by_append reserved_by_unmatched)
qed

lemma generate_preview_resolved:
  assumes "generate_preview lower exists cfg file_mapping matched old_tree = Some st"
    and "k < length (entries matched)"
  shows "resolved_at lower exists cfg (tree st) k"
proof -
  from assms(1) obtain st0 where
    st: "st = st0\<lparr>tree := tree st0 @ filter (\<lambda>r. status r = Unmatched) old_tree\<rparr>"
    and len: "length (tree st0) = length (entries matched)"
    and inv: "preview_inv lower exists cfg st0"
    by (rule generate_preview_unfold)
  from assms(2) len have k: "k < length (tree st0)" by simp
  with inv have "resolved_at lower exists cfg (tree st0) k" by (simp add: preview_inv_def)
  with k show ?thesis by (simp add: st resolved_at_append_old)
qed

lemma generate_preview_row_shape:
  assumes "generate_preview lower exists cfg file_mapping matched old_tree = Some st"
    and "k < length (entries matched)"
  shows "row_shape (tree st ! k) = expected_shape cfg file_mapping (entries matched ! k)"
proof -
  have "map row_shape (tree st) ! k =
        (map (expected_shape cfg file_mapping) (entries matched) @
         map row_shape (filter (\<lambda>r. status r = Unmatched) old_tree)) ! k"
    by (simp only: generate_preview_shape[OF assms(1)])
  also have "\<dots> = expected_shape cfg file_mapping (entries matched ! k)"
    using assms(2) by (simp add: nth_append)
  finally have a: "map row_shape (tree st) ! k = expected_shape cfg file_mapping (entries matched ! k)" .
  have "length (map row_shape (tree st)) =
        length (entries matched) + length (filter (\<lambda>r. status r = Unmatched) old_tree)"
    by (simp only: generate_preview_shape[OF assms(1)] length_append length_map)
  with assms(2) have "k < length (tree st)" by simp
  with a show ?thesis by simp
qed

lemma generate_preview_kept:
  assumes "generate_preview lower exists cfg file_mapping matched old_tree = Some st"
    and "k < length (tree st)" and "\<not> k < length (entries matched)"
  shows "status (tree st ! k) = Unmatched"
proof -
  let ?keep = "filter (\<lambda>r. status r = Unmatched) old_tree"
  from assms(1) obtain st0 where
    st: "st = st0\<lparr>tree := tree st0 @ ?keep\<rparr>"
    and len: "length (tree st0) = length (entries matched)"
    by (rule generate_preview_unfold)
  from assms(2,3) have "k - length (tree st0) < length ?keep" by (simp add: st len)
  then have "?keep ! (k - length (tree st0)) \<in> set ?keep" by (rule nth_mem)
  then have "status (?keep ! (k - length (tree st0))) = Unmatched" by simp
  with assms(3) show ?thesis by (simp add: st len nth_append)
qed

section \<open>The suffixed name and the sanitizer\<close>

declare str_nat.simps [simp del]















section \<open>The preview: the claims\<close>

text \<open>
  C2. In a preview, the row of the \<open>k\<close>-th entry of the match result is skipped exactly
  when its group is skipped as a whole. Otherwise its status is resolved in this order:
  \<open>PreviewConflict\<close> when its target name equals, after lower-casing, a name reserved by an
  earlier row of the run; else \<open>TargetExists\<close> when the path of the name in the target
  folder exists; else \<open>Pending\<close>. The names reserved at the end are the target names of
  the pending rows, so a pending row has added its name.
\<close>

theorem preview_outcome_order:
  assumes "generate_preview lower exists cfg file_mapping matched old_tree = Some st"
    and "k < length (entries matched)"
    and "entries matched ! k = (name, n, i, item)"
  shows "status (tree st ! k) =
           (if skipped_group cfg n then Skipped
            else if lower (target_name (tree st ! k)) \<in> lower ` reserved_by (take k (tree st))
              then PreviewConflict
            else if exists (path_join (target_folder_path cfg) (target_name (tree st ! k)))
              then TargetExists
            else Pending) \<and>
         target_filenames_in_preview st = reserved_by (tree st)"
proof -
  from generate_preview_row_shape[OF assms(1,2)]
  have sk: "(status (tree st ! k) = Skipped) = skipped_group cfg n"
    by (simp add: row_shape_def expected_shape_def assms(3))
  from generate_preview_resolved[OF assms(1,2)]
  have "status (tree st ! k) = Skipped \<or>
        status (tree st ! k) =
          resolved_status lower exists cfg (take k (tree st)) (target_name (tree st ! k))"
    by (simp add: resolved_at_def)
  with sk have "status (tree st ! k) =
           (if skipped_group cfg n then Skipped
            else resolved_status lower exists cfg (take k (tree st)) (target_name (tree st ! k)))"
    by auto
  then show ?thesis
    using generate_preview_reserved[OF assms(1)] by (simp add: resolved_status_def)
qed

theorem preview_outcome_order_witness:
  "generate_preview ascii_lower exists_report cfg0 fm_report matched_report [] = Some st_report \<and>
   (1::nat) < length (entries matched_report) \<and>
   entries matched_report ! 1 = (cps ''B'', 1, 0, cps ''b.pdf'') \<and>
   status (tree st_report ! 1) =
     (if skipped_group cfg0 1 then Skipped
      else if ascii_lower (target_name (tree st_report ! 1)) \<in>
                ascii_lower ` reserved_by (take 1 (tree st_report))
        then PreviewConflict
      else if exists_report (path_join (target_folder_path cfg0) (target_name (tree st_report ! 1)))
        then TargetExists
      else Pending) \<and>
   status (tree st_report ! 1) = Pending \<and>
   target_filenames_in_preview st_report = reserved_by (tree st_report)"
proof -
  have h1: "generate_preview ascii_lower exists_report cfg0 fm_report matched_report [] =
            Some st_report" by code_simp
  have h2: "(1::nat) < length (entries matched_report)" by code_simp
  have h3: "entries matched_report ! 1 = (cps ''B'', 1, 0, cps ''b.pdf'')" by code_simp
  have h4: "status (tree st_report ! 1) = Pending" by code_simp
  from preview_outcome_order[OF h1 h2 h3] h1 h2 h3 h4 show ?thesis by blast
qed



text \<open>
  C10. The names reserved in a preview are the target names of its pending rows and no
  others. So a row marked \<open>PreviewConflict\<close> has an earlier pending row with the same name
  up to case: a skipped row, a conflicting row or a row whose target exists reserves
  nothing and makes no later row conflict.
\<close>

theorem only_pending_reserves:
  assumes "generate_preview lower exists cfg file_mapping matched old_tree = Some st"
    and "k < length (tree st)"
    and "status (tree st ! k) = PreviewConflict"
  shows "(\<exists>j. j < k \<and> status (tree st ! j) = Pending \<and>
              lower (target_name (tree st ! j)) = lower (target_name (tree st ! k))) \<and>
         target_filenames_in_preview st =
           {target_name r | r. r \<in> set (tree st) \<and> status r = Pending}"
proof -
  have k: "k < length (entries matched)"
  proof (rule ccontr)
    assume "\<not> k < length (entries matched)"
    from generate_preview_kept[OF assms(1,2) this] assms(3) show False by simp
  qed
  from generate_preview_resolved[OF assms(1) k] assms(3)
  have "resolved_status lower exists cfg (take k (tree st)) (target_name (tree st ! k)) = PreviewConflict"
    by (simp add: resolved_at_def)
  then have "lower (target_name (tree st ! k)) \<in> lower ` reserved_by (take k (tree st))"
    by (auto simp: resolved_status_def split: if_splits)
  then obtain r where r: "r \<in> set (take k (tree st))" "status r = Pending"
      "lower (target_name r) = lower (target_name (tree st ! k))"
    by (auto simp: reserved_by_def)
  from r(1) obtain j where j: "j < length (take k (tree st))" "take k (tree st) ! j = r"
    unfolding in_set_conv_nth by blast
  then have "j < k" "tree st ! j = r" by simp_all
  with r have "\<exists>j. j < k \<and> status (tree st ! j) = Pending \<and>
              lower (target_name (tree st ! j)) = lower (target_name (tree st ! k))" by blast
  moreover have "target_filenames_in_preview st =
           {target_name r | r. r \<in> set (tree st) \<and> status r = Pending}"
    using generate_preview_reserved[OF assms(1)] by (simp add: reserved_by_def)
  ultimately show ?thesis by blast
qed

theorem only_pending_reserves_witness:
  "generate_preview ascii_lower exists_report cfg0 fm_report matched_report [] = Some st_report \<and>
   (2::nat) < length (tree st_report) \<and>
   status (tree st_report ! 2) = PreviewConflict \<and>
   (\<exists>j. j < 2 \<and> status (tree st_report ! j) = Pending \<and>
      ascii_lower (target_name (tree st_report ! j)) =
      ascii_lower (target_name (tree st_report ! 2))) \<and>
   target_filenames_in_preview st_report =
     {target_name r | r. r \<in> set (tree st_report) \<and> status r = Pending} \<and>
   status (tree st_report ! 0) = TargetExists \<and>
   ascii_lower (target_name (tree st_report ! 0)) =
     ascii_lower (target_name (tree st_report ! 1)) \<and>
   status (tree st_report ! 1) = Pending"
proof -
  have h1: "generate_preview ascii_lower exists_report cfg0 fm_report matched_report [] =
            Some st_report" by code_simp
  have h2: "(2::nat) < length (tree st_report)" by code_simp
  have h3: "status (tree st_report ! 2) = PreviewConflict" by code_simp
  have h4: "status (tree st_report ! 0) = TargetExists" by code_simp
  have h5: "ascii_lower (target_name (tree st_report ! 0)) =
            ascii_lower (target_name (tree st_report ! 1))" by code_simp
  have h6: "status (tree st_report ! 1) = Pending" by code_simp
  from only_pending_reserves[OF h1 h2 h3] h1 h2 h3 h4 h5 h6 show ?thesis by blast
qed

section \<open>Execution: properties\<close>







lemma execute_rename_not_completed:
  assumes "\<forall>s k e. outcome (execute_rename C cfg fs0 tree0) \<noteq> Completed s k e"
  shows "result_tree (execute_rename C cfg fs0 tree0) = tree0 \<and>
         performed (execute_rename C cfg fs0 tree0) = []"
  using assms
  by (auto simp: execute_rename_def Let_def split: if_splits option.splits prod.splits)

lemma execute_rename_no_pending:
  assumes "\<forall>r\<in>set tree0. status r \<noteq> Pending"
  shows "execute_rename C cfg fs0 tree0 =
           \<lparr>outcome = NoPendingItems, result_fs = fs0, result_tree = tree0, performed = []\<rparr>"
proof -
  from assms have "filter (\<lambda>r. status r = Pending) tree0 = []" by (simp add: filter_empty_conv)
  then show ?thesis by (simp add: execute_rename_def Let_def)
qed

section \<open>Execution: the claims\<close>




text \<open>
  C9, as the specification states it, fails: when every row is finished the call ends at
  its first check and shows no summary; in particular its result is not a summary of
  three zeros.
\<close>

theorem no_summary_without_pending:
  "outcome (execute_rename set_fs cfg0 {cps ''out/x.pdf''} tree_done) \<noteq> Completed 0 0 0"
  by code_simp

text \<open>
  C9, amended. When no row is pending (so when every row is a success, skipped or an
  error), the call ends at its first check: the file system and the table are as they
  were, no action is taken, no counter exists, and the result is the warning that
  nothing is pending.
\<close>

theorem execute_rename_nothing_pending:
  assumes "\<forall>r\<in>set tree0. status r \<noteq> Pending"
  shows "execute_rename C cfg fs0 tree0 =
           \<lparr>outcome = NoPendingItems, result_fs = fs0, result_tree = tree0, performed = []\<rparr>"
  by (rule execute_rename_no_pending[OF assms])

theorem execute_rename_nothing_pending_witness:
  "status (tree_done ! 0) = Success \<and> status (tree_done ! 1) = Skipped \<and>
   is_error (status (tree_done ! 2)) \<and> length tree_done = 3 \<and>
   execute_rename set_fs cfg0 {cps ''out/x.pdf''} tree_done =
     \<lparr>outcome = NoPendingItems, result_fs = {cps ''out/x.pdf''}, result_tree = tree_done,
      performed = []\<rparr>"
proof -
  have h: "\<forall>r\<in>set tree_done. status r \<noteq> Pending"
    by (simp add: tree_done_def mk_row_def)
  have s: "status (tree_done ! 0) = Success \<and> status (tree_done ! 1) = Skipped \<and>
   is_error (status (tree_done ! 2)) \<and> length tree_done = 3"
    by (simp add: tree_done_def mk_row_def is_error_def)
  from execute_rename_nothing_pending[OF h, of set_fs cfg0 "{cps ''out/x.pdf''}"] s
  show ?thesis by blast
qed

end
